theory Spec2Isabelle
  imports Main "HOL-Library.Product_Lexorder"
begin

section \<open>The knight's tour search of dfs\_warnsdorffs\_knights\_tour.py\<close>

text \<open>
  A vertex is a Python tuple of two unbounded integers. The move graph is a
  \<^verbatim>\<open>defaultdict(set)\<close>: a dictionary from vertices to sets of vertices in which
  reading a key that is absent first stores an empty set under that key. The
  dictionary is therefore part of the state: every read returns the graph as well.
\<close>

type_synonym vertex = "int \<times> int"

type_synonym graph = "vertex \<Rightarrow> vertex set option"

definition MOVE_OFFSETS :: "(int \<times> int) list" where
  "MOVE_OFFSETS =
     [(-1, -2), (1, -2), (-2, -1), (2, -1), (-2, 1), (2, 1), (-1, 2), (1, 2)]"

text \<open>\<^verbatim>\<open>graph[key]\<close> on a defaultdict(set): the stored set, or a fresh empty set
  that is stored under the key before it is returned.\<close>

definition getitem :: "graph \<Rightarrow> vertex \<Rightarrow> vertex set \<times> graph" where
  "getitem graph key =
     (case graph key of
        Some s \<Rightarrow> (s, graph)
      | None \<Rightarrow> ({}, graph(key \<mapsto> {})))"

text \<open>What a read of the graph observes at a vertex, whether or not it is a key.\<close>

definition neighbors :: "graph \<Rightarrow> vertex \<Rightarrow> vertex set" where
  "neighbors graph v = (case graph v of Some s \<Rightarrow> s | None \<Rightarrow> {})"

definition add_edge :: "graph \<Rightarrow> vertex \<Rightarrow> vertex \<Rightarrow> graph" where
  "add_edge graph vertex_a vertex_b =
     (let (sa, g1) = getitem graph vertex_a;
          g2 = g1(vertex_a \<mapsto> insert vertex_b sa);
          (sb, g3) = getitem g2 vertex_b
      in g3(vertex_b \<mapsto> insert vertex_a sb))"

text \<open>\<^verbatim>\<open>range(n)\<close> for a Python integer: empty when \<open>n \<le> 0\<close>.\<close>

definition range_py :: "int \<Rightarrow> int list" where
  "range_py n = [0..n - 1]"

definition legal_moves_from :: "int \<Rightarrow> int \<Rightarrow> int \<Rightarrow> vertex list" where
  "legal_moves_from row col board_size =
     map (\<lambda>(row_offset, col_offset). (row + row_offset, col + col_offset))
       (filter (\<lambda>(row_offset, col_offset).
                  0 \<le> row + row_offset \<and> row + row_offset < board_size \<and>
                  0 \<le> col + col_offset \<and> col + col_offset < board_size)
          MOVE_OFFSETS)"

definition build_graph :: "int \<Rightarrow> graph" where
  "build_graph board_size =
     fold (\<lambda>row g.
        fold (\<lambda>col g.
           fold (\<lambda>(to_row, to_col) g. add_edge g (row, col) (to_row, to_col))
             (legal_moves_from row col board_size) g)
          (range_py board_size) g)
       (range_py board_size) Map.empty"

text \<open>\<^verbatim>\<open>warnsdorffs_heuristic(graph)\<close> is the closure \<^verbatim>\<open>compute_degree\<close>, which reads
  \<^verbatim>\<open>len(graph[vertex])\<close>; the read goes through the defaultdict.\<close>

definition warnsdorffs_heuristic :: "graph \<Rightarrow> vertex \<Rightarrow> nat \<times> graph" where
  "warnsdorffs_heuristic graph vertex =
     (let (s, g') = getitem graph vertex in (card s, g'))"

text \<open>\<^verbatim>\<open>sorted(xs, key=heuristic(graph))\<close>: the key of every element is computed
  once, in the order of the input, and the elements are then sorted by key with a
  stable sort.\<close>

fun compute_keys :: "graph \<Rightarrow> vertex list \<Rightarrow> nat list \<times> graph" where
  "compute_keys g [] = ([], g)"
| "compute_keys g (v # vs) =
     (let (k, g1) = warnsdorffs_heuristic g v;
          (ks, g2) = compute_keys g1 vs
      in (k # ks, g2))"

definition sorted_py :: "graph \<Rightarrow> vertex list \<Rightarrow> vertex list \<times> graph" where
  "sorted_py g xs =
     (let (ks, g') = compute_keys g xs
      in (map snd (sort_key fst (zip ks xs)), g'))"

text \<open>What \<^verbatim>\<open>traverse\<close> returns: a list of vertices, \<^verbatim>\<open>False\<close> at a dead end, or
  the \<^verbatim>\<open>None\<close> of \<^verbatim>\<open>first_true\<close> when every candidate failed.\<close>

datatype outcome = Tour "vertex list" | PyFalse | PyNone

fun truthy :: "outcome \<Rightarrow> bool" where
  "truthy (Tour t) = (t \<noteq> [])"
| "truthy PyFalse = False"
| "truthy PyNone = False"

text \<open>\<^verbatim>\<open>first_true\<close> consumes a generator: each item is computed only when the loop
  reaches it, and computing it runs a recursive search that reads the graph. An item
  is therefore a computation on the graph; \<open>None\<close> is a computation that has not
  returned within its fuel.\<close>

fun first_true ::
  "(graph \<Rightarrow> (outcome \<times> graph) option) list \<Rightarrow> graph \<Rightarrow> (outcome \<times> graph) option" where
  "first_true [] g = Some (PyNone, g)"
| "first_true (item # rest) g =
     (case item g of
        None \<Rightarrow> None
      | Some (r, g') \<Rightarrow> if truthy r then Some (r, g') else first_true rest g')"

text \<open>The closure \<^verbatim>\<open>traverse\<close> of \<^verbatim>\<open>find_knights_tour\<close>, with the variables it
  captures (\<^verbatim>\<open>total_squares\<close>, \<^verbatim>\<open>graph\<close>) as arguments and the default heuristic.
  The first argument is fuel: the recursion depth allowed. \<open>iter\<close> is the order in
  which Python iterates over a set, which the language leaves to the interpreter.\<close>

fun traverse ::
  "nat \<Rightarrow> (vertex set \<Rightarrow> vertex list) \<Rightarrow> int \<Rightarrow> graph \<Rightarrow> vertex list \<Rightarrow> vertex
     \<Rightarrow> (outcome \<times> graph) option" where
  "traverse 0 iter total_squares graph path current_vertex = None"
| "traverse (Suc fuel) iter total_squares graph path current_vertex =
     (if int (length path) + 1 = total_squares
      then Some (Tour (path @ [current_vertex]), graph)
      else
        (let (nbrs, g1) = getitem graph current_vertex;
             yet_to_visit = nbrs - set path
         in if yet_to_visit = {} then Some (PyFalse, g1)
            else
              (let (next_vertices, g2) = sorted_py g1 (iter yet_to_visit)
               in first_true
                    (map (\<lambda>vertex g.
                            traverse fuel iter total_squares g (path @ [current_vertex]) vertex)
                       next_vertices)
                    g2)))"

text \<open>\<^verbatim>\<open>find_knights_tour\<close> with \<^verbatim>\<open>visualize=False\<close> (what the command line passes
  unless asked otherwise) and the default heuristic. After the search the solution is
  written to a file, one line per element: iterating over \<^verbatim>\<open>False\<close> or \<^verbatim>\<open>None\<close>
  raises \<^verbatim>\<open>TypeError\<close> there, before \<^verbatim>\<open>return solution\<close> is reached. The file
  system and the plotting module are outside the model.\<close>

datatype py_error = TypeError

definition find_knights_tour ::
  "nat \<Rightarrow> (vertex set \<Rightarrow> vertex list) \<Rightarrow> int \<Rightarrow> int \<Rightarrow> int
     \<Rightarrow> (py_error + vertex list) option" where
  "find_knights_tour fuel iter board_size start_row start_col =
     (let graph = build_graph board_size;
          total_squares = board_size * board_size
      in case traverse fuel iter total_squares graph [] (start_row, start_col) of
           None \<Rightarrow> None
         | Some (solution, g') \<Rightarrow>
             (case solution of
                Tour t \<Rightarrow> Some (Inr t)
              | PyFalse \<Rightarrow> Some (Inl TypeError)
              | PyNone \<Rightarrow> Some (Inl TypeError)))"

section \<open>Notions the properties are stated with\<close>

text \<open>A cell of the board, as line 61 of the source tests it, and two cells one
  knight move apart: their difference is one of \<open>MOVE_OFFSETS\<close>.\<close>

definition in_bounds :: "int \<Rightarrow> vertex \<Rightarrow> bool" where
  "in_bounds board_size v =
     (0 \<le> fst v \<and> fst v < board_size \<and> 0 \<le> snd v \<and> snd v < board_size)"

definition knight_move :: "vertex \<Rightarrow> vertex \<Rightarrow> bool" where
  "knight_move a b = ((fst b - fst a, snd b - snd a) \<in> set MOVE_OFFSETS)"

text \<open>The calls of \<^verbatim>\<open>add_edge\<close> that \<open>build_graph\<close> makes, in order.\<close>

definition edges_of :: "int \<Rightarrow> (vertex \<times> vertex) list" where
  "edges_of board_size =
     concat (map (\<lambda>row. concat (map (\<lambda>col.
        map (\<lambda>t. ((row, col), t)) (legal_moves_from row col board_size))
          (range_py board_size))) (range_py board_size))"

text \<open>The outcome of \<open>traverse\<close> as a function of what the reads of the graph
  return: the same tests in the same order, without the dictionary. \<open>traverse\<close> is
  shown to compute it (\<open>traverse_refines\<close>), and the properties of the search are proved
  on it.\<close>

fun first_ok :: "outcome option list \<Rightarrow> outcome option" where
  "first_ok [] = Some PyNone"
| "first_ok (None # rest) = None"
| "first_ok (Some r # rest) = (if truthy r then Some r else first_ok rest)"

fun search ::
  "nat \<Rightarrow> (vertex set \<Rightarrow> vertex list) \<Rightarrow> int \<Rightarrow> (vertex \<Rightarrow> vertex set) \<Rightarrow> vertex list \<Rightarrow> vertex
     \<Rightarrow> outcome option" where
  "search 0 iter t nb p c = None"
| "search (Suc k) iter t nb p c =
     (if int (length p) + 1 = t then Some (Tour (p @ [c]))
      else if nb c - set p = {} then Some PyFalse
      else first_ok (map (search k iter t nb (p @ [c]))
             (sort_key (\<lambda>v. card (nb v)) (iter (nb c - set p)))))"

text \<open>The only change a read of a defaultdict can make: a key that was absent now
  holds the empty set.\<close>

definition only_empty_keys_added :: "graph \<Rightarrow> graph \<Rightarrow> bool" where
  "only_empty_keys_added g g' \<longleftrightarrow> (\<forall>v. g' v = g v \<or> (g v = None \<and> g' v = Some {}))"

text \<open>An iteration order for sets: every finite set is listed, each element once.\<close>

definition set_order :: "(vertex set \<Rightarrow> vertex list) \<Rightarrow> bool" where
  "set_order iter \<longleftrightarrow> (\<forall>S. finite S \<longrightarrow> set (iter S) = S \<and> distinct (iter S))"

text \<open>Whether a path of knight moves leads from \<open>c\<close> through \<open>k\<close> more cells of
  the board, none of them \<open>c\<close> or in \<open>vis\<close> and no two the same. It decides by
  exhaustion that the boards of size 2, 3 and 4 have no tour.\<close>

fun extend :: "nat \<Rightarrow> int \<Rightarrow> vertex list \<Rightarrow> vertex \<Rightarrow> bool" where
  "extend 0 n vis c = True"
| "extend (Suc k) n vis c =
     list_ex (\<lambda>v. v \<notin> set (c # vis) \<and> extend k n (c # vis) v)
       (legal_moves_from (fst c) (snd c) n)"

text \<open>The cells of one row of the board.\<close>

definition row_cells :: "int \<Rightarrow> int \<Rightarrow> vertex list" where
  "row_cells n row = map (Pair row) (range_py n)"

text \<open>\<open>first_ok\<close> over the outcomes of the candidates, written so that evaluation
  stops at the first success.\<close>

definition try_each :: "(vertex \<Rightarrow> outcome option) \<Rightarrow> vertex list \<Rightarrow> outcome option" where
  "try_each h vs = first_ok (map h vs)"

text \<open>The neighbour sets of the built graph, with an equation that evaluates them
  (\<open>move_set_code\<close>).\<close>

definition move_set :: "int \<Rightarrow> vertex \<Rightarrow> vertex set" where
  "move_set n = neighbors (build_graph n)"

section \<open>The move graph\<close>

lemma fst_getitem: "fst (getitem g k) = neighbors g k"
  by (simp add: getitem_def neighbors_def split: option.splits)

lemma neighbors_getitem: "neighbors (snd (getitem g k)) v = neighbors g v"
  by (simp add: getitem_def neighbors_def split: option.splits)

lemma dom_getitem: "dom (snd (getitem g k)) = insert k (dom g)"
  by (auto simp: getitem_def split: option.splits)

lemma neighbors_add_edge:
  "neighbors (add_edge g a b) v =
     neighbors g v \<union> (if v = a then {b} else {}) \<union> (if v = b then {a} else {})"
  by (auto simp: add_edge_def getitem_def neighbors_def Let_def split: option.splits if_splits)

lemma dom_add_edge: "dom (add_edge g a b) = dom g \<union> {a, b}"
  by (auto simp: add_edge_def getitem_def Let_def split: option.splits if_splits)

lemma neighbors_fold_add_edge:
  "neighbors (fold (\<lambda>(a, b) g. add_edge g a b) es g) v =
     neighbors g v \<union> {b. (v, b) \<in> set es} \<union> {a. (a, v) \<in> set es}"
  by (induction es arbitrary: g) (auto simp: neighbors_add_edge split: if_splits)

lemma dom_fold_add_edge:
  "dom (fold (\<lambda>(a, b) g. add_edge g a b) es g) = dom g \<union> fst ` set es \<union> snd ` set es"
proof (induction es arbitrary: g)
  case Nil
  show ?case by simp
next
  case (Cons e es)
  obtain a b where e: "e = (a, b)" by (cases e)
  have "dom (fold (\<lambda>(a, b) g. add_edge g a b) (e # es) g) =
        dom (add_edge g a b) \<union> fst ` set es \<union> snd ` set es"
    using Cons.IH [of "add_edge g a b"] by (simp add: e)
  also have "\<dots> = dom g \<union> fst ` set (e # es) \<union> snd ` set (e # es)"
    unfolding dom_add_edge e by auto
  finally show ?case .
qed

lemma fold_concat_list: "fold f (concat xss) = fold (fold f) xss"
  by (induction xss) (simp_all add: fun_eq_iff)

lemma fold_map_list: "fold f (map h xs) = fold (\<lambda>x. f (h x)) xs"
  by (induction xs) (simp_all add: fun_eq_iff)

lemma build_graph_edges:
  "build_graph n = fold (\<lambda>(a, b) g. add_edge g a b) (edges_of n) Map.empty"
proof -
  have eq: "(\<lambda>(to_row, to_col) g. add_edge g a (to_row, to_col)) = (\<lambda>t g. add_edge g a t)"
    for a :: vertex
    by (auto simp: fun_eq_iff)
  show ?thesis
    unfolding build_graph_def edges_of_def eq
    by (simp add: fold_concat_list fold_map_list)
qed

lemma set_range_py: "set (range_py n) = {0..<n}"
  by (auto simp: range_py_def)

lemma offsets_neg: "(dx, dy) \<in> set MOVE_OFFSETS \<Longrightarrow> (- dx, - dy) \<in> set MOVE_OFFSETS"
  by (auto simp: MOVE_OFFSETS_def)

lemma knight_move_sym: "knight_move a b \<longleftrightarrow> knight_move b a"
proof -
  have "knight_move x y \<Longrightarrow> knight_move y x" for x y
    using offsets_neg [of "fst y - fst x" "snd y - snd x"]
    by (simp add: knight_move_def)
  then show ?thesis by blast
qed

lemma knight_move_irrefl: "\<not> knight_move a a"
  by (simp add: knight_move_def MOVE_OFFSETS_def)

lemma legal_moves_from_iff:
  "b \<in> set (legal_moves_from r c n) \<longleftrightarrow> in_bounds n b \<and> knight_move (r, c) b"
proof -
  obtain br bc where b: "b = (br, bc)" by (cases b)
  have "b \<in> set (legal_moves_from r c n) \<longleftrightarrow>
        (\<exists>ro co. (ro, co) \<in> set MOVE_OFFSETS \<and> 0 \<le> r + ro \<and> r + ro < n \<and>
            0 \<le> c + co \<and> c + co < n \<and> br = r + ro \<and> bc = c + co)"
    unfolding legal_moves_from_def b by (auto simp: image_iff)
  also have "\<dots> \<longleftrightarrow> (br - r, bc - c) \<in> set MOVE_OFFSETS \<and> 0 \<le> br \<and> br < n \<and>
            0 \<le> bc \<and> bc < n"
  proof
    assume "\<exists>ro co. (ro, co) \<in> set MOVE_OFFSETS \<and> 0 \<le> r + ro \<and> r + ro < n \<and>
            0 \<le> c + co \<and> c + co < n \<and> br = r + ro \<and> bc = c + co"
    then obtain ro co where h: "(ro, co) \<in> set MOVE_OFFSETS" "0 \<le> r + ro" "r + ro < n"
       "0 \<le> c + co" "c + co < n" "br = r + ro" "bc = c + co" by blast
    from h(6,7) have "br - r = ro" "bc - c = co" by simp_all
    with h show "(br - r, bc - c) \<in> set MOVE_OFFSETS \<and> 0 \<le> br \<and> br < n \<and>
            0 \<le> bc \<and> bc < n" by simp
  next
    assume h: "(br - r, bc - c) \<in> set MOVE_OFFSETS \<and> 0 \<le> br \<and> br < n \<and>
            0 \<le> bc \<and> bc < n"
    show "\<exists>ro co. (ro, co) \<in> set MOVE_OFFSETS \<and> 0 \<le> r + ro \<and> r + ro < n \<and>
            0 \<le> c + co \<and> c + co < n \<and> br = r + ro \<and> bc = c + co"
      by (rule exI [of _ "br - r"], rule exI [of _ "bc - c"]) (use h in simp)
  qed
  finally show ?thesis
    by (auto simp: b in_bounds_def knight_move_def)
qed

lemma mem_edges_of:
  "(a, b) \<in> set (edges_of n) \<longleftrightarrow> in_bounds n a \<and> in_bounds n b \<and> knight_move a b"
proof -
  obtain r c where a: "a = (r, c)" by (cases a)
  have "set (edges_of n) =
     (\<Union>row\<in>{0..<n}. \<Union>col\<in>{0..<n}. Pair (row, col) ` set (legal_moves_from row col n))"
    unfolding edges_of_def by (simp add: set_range_py)
  then have "(a, b) \<in> set (edges_of n) \<longleftrightarrow>
        r \<in> {0..<n} \<and> c \<in> {0..<n} \<and> b \<in> set (legal_moves_from r c n)"
    unfolding a by blast
  then show ?thesis
    by (simp add: legal_moves_from_iff a in_bounds_def)
qed

lemma neighbors_empty: "neighbors Map.empty v = {}"
  by (simp add: neighbors_def)

lemma neighbors_build_graph:
  "neighbors (build_graph n) v = {b. in_bounds n v \<and> in_bounds n b \<and> knight_move v b}"
proof -
  have "neighbors (build_graph n) v =
      {b. (v, b) \<in> set (edges_of n)} \<union> {a. (a, v) \<in> set (edges_of n)}"
    by (simp only: build_graph_edges neighbors_fold_add_edge neighbors_empty Un_empty_left)
  also have "\<dots> = {b. in_bounds n v \<and> in_bounds n b \<and> knight_move v b}"
    unfolding mem_edges_of using knight_move_sym [of v] by blast
  finally show ?thesis .
qed

lemma dom_build_graph:
  "dom (build_graph n) = {v. in_bounds n v \<and> (\<exists>b. in_bounds n b \<and> knight_move v b)}"
proof -
  have "dom (build_graph n) = fst ` set (edges_of n) \<union> snd ` set (edges_of n)"
    by (simp only: build_graph_edges dom_fold_add_edge dom_empty Un_empty_left)
  also have "\<dots> = {v. in_bounds n v \<and> (\<exists>b. in_bounds n b \<and> knight_move v b)}"
  proof (rule set_eqI)
    fix v
    have "v \<in> fst ` set (edges_of n) \<longleftrightarrow> (\<exists>b. (v, b) \<in> set (edges_of n))"
      by force
    moreover have "v \<in> snd ` set (edges_of n) \<longleftrightarrow> (\<exists>b. (b, v) \<in> set (edges_of n))"
      by force
    ultimately show "v \<in> fst ` set (edges_of n) \<union> snd ` set (edges_of n) \<longleftrightarrow>
        v \<in> {v. in_bounds n v \<and> (\<exists>b. in_bounds n b \<and> knight_move v b)}"
      unfolding mem_edges_of using knight_move_sym [of v] by blast
  qed
  finally show ?thesis .
qed

section \<open>The search and the state of the graph\<close>

lemma oeka_refl: "only_empty_keys_added g g"
  by (simp add: only_empty_keys_added_def)

lemma oeka_trans:
  "only_empty_keys_added g g1 \<Longrightarrow> only_empty_keys_added g1 g2 \<Longrightarrow> only_empty_keys_added g g2"
  unfolding only_empty_keys_added_def by metis

lemma oeka_neighbors: "only_empty_keys_added g g' \<Longrightarrow> neighbors g' = neighbors g"
  unfolding only_empty_keys_added_def neighbors_def fun_eq_iff
  by (metis option.simps(4,5))

lemma oeka_getitem: "only_empty_keys_added g (snd (getitem g k))"
  by (simp add: only_empty_keys_added_def getitem_def split: option.splits)

lemma heuristic_spec:
  "warnsdorffs_heuristic g v = (card (neighbors g v), snd (getitem g v))"
  by (simp add: warnsdorffs_heuristic_def split_beta fst_getitem)

lemma compute_keys_spec:
  "fst (compute_keys g xs) = map (\<lambda>v. card (neighbors g v)) xs \<and>
   only_empty_keys_added g (snd (compute_keys g xs))"
proof (induction xs arbitrary: g)
  case Nil
  show ?case by (simp add: oeka_refl)
next
  case (Cons x xs)
  let ?g1 = "snd (getitem g x)"
  have n: "neighbors ?g1 = neighbors g"
    by (rule oeka_neighbors [OF oeka_getitem])
  from Cons.IH [of ?g1] show ?case
    by (auto simp: heuristic_spec split_beta n intro: oeka_trans [OF oeka_getitem])
qed

lemma insort_key_map:
  "insort_key k (h x) (map h ys) = map h (insort_key (\<lambda>y. k (h y)) x ys)"
  by (induction ys) simp_all

lemma sort_key_map: "sort_key k (map h xs) = map h (sort_key (\<lambda>y. k (h y)) xs)"
  by (induction xs) (simp_all add: insort_key_map)

lemma zip_map_self: "zip (map f xs) xs = map (\<lambda>x. (f x, x)) xs"
  by (induction xs) simp_all

lemma sorted_py_spec:
  "sorted_py g xs =
     (sort_key (\<lambda>v. card (neighbors g v)) xs, snd (compute_keys g xs))"
proof -
  have "fst (compute_keys g xs) = map (\<lambda>v. card (neighbors g v)) xs"
    using compute_keys_spec by blast
  then show ?thesis
    by (simp add: sorted_py_def split_beta zip_map_self sort_key_map comp_def)
qed

lemma first_true_refines:
  assumes "\<And>v g. v \<in> set vs \<Longrightarrow> neighbors g = nb \<Longrightarrow>
             (case f g v of None \<Rightarrow> h v = None
              | Some (r, g') \<Rightarrow> h v = Some r \<and> only_empty_keys_added g g')"
    and "neighbors g = nb"
  shows "case first_true (map (\<lambda>v g. f g v) vs) g of
           None \<Rightarrow> first_ok (map h vs) = None
         | Some (r, g') \<Rightarrow> first_ok (map h vs) = Some r \<and> only_empty_keys_added g g'"
  using assms
proof (induction vs arbitrary: g)
  case Nil
  then show ?case by (simp add: oeka_refl)
next
  case (Cons v vs)
  show ?case
  proof (cases "f g v")
    case None
    with Cons.prems(1) [of v g] Cons.prems(2) show ?thesis by simp
  next
    case (Some rg)
    obtain r g1 where rg: "rg = (r, g1)" by (cases rg)
    from Cons.prems(1) [of v g] Cons.prems(2) Some rg
    have hv: "h v = Some r" and e1: "only_empty_keys_added g g1" by simp_all
    show ?thesis
    proof (cases "truthy r")
      case True
      with Some rg hv e1 show ?thesis by simp
    next
      case False
      have n1: "neighbors g1 = nb" using oeka_neighbors [OF e1] Cons.prems(2) by simp
      have ih: "case first_true (map (\<lambda>v g. f g v) vs) g1 of
           None \<Rightarrow> first_ok (map h vs) = None
         | Some (r, g') \<Rightarrow> first_ok (map h vs) = Some r \<and> only_empty_keys_added g1 g'"
        by (rule Cons.IH) (use Cons.prems(1) n1 in auto)
      with Some rg hv e1 False show ?thesis
        by (auto split: option.splits intro: oeka_trans)
    qed
  qed
qed

lemma traverse_refines:
  "case traverse k iter t g p c of
     None \<Rightarrow> search k iter t (neighbors g) p c = None
   | Some (r, g') \<Rightarrow> search k iter t (neighbors g) p c = Some r \<and> only_empty_keys_added g g'"
proof (induction k arbitrary: g p c)
  case 0
  show ?case by simp
next
  case (Suc k)
  let ?g1 = "snd (getitem g c)"
  let ?yet = "neighbors g c - set p"
  let ?g2 = "snd (compute_keys ?g1 (iter ?yet))"
  let ?cands = "sort_key (\<lambda>v. card (neighbors g v)) (iter ?yet)"
  have e1: "only_empty_keys_added g ?g1" by (rule oeka_getitem)
  have n1: "neighbors ?g1 = neighbors g" by (rule oeka_neighbors [OF e1])
  have e2: "only_empty_keys_added ?g1 ?g2" using compute_keys_spec by blast
  have e12: "only_empty_keys_added g ?g2" by (rule oeka_trans [OF e1 e2])
  have n2: "neighbors ?g2 = neighbors g" by (rule oeka_neighbors [OF e12])
  show ?case
  proof (cases "int (length p) + 1 = t")
    case True
    then show ?thesis by (simp add: oeka_refl)
  next
    case nt: False
    show ?thesis
    proof (cases "?yet = {}")
      case True
      with nt e1 show ?thesis
        by (simp add: split_beta fst_getitem Let_def)
    next
      case False
      have ft: "case first_true (map (\<lambda>v g'. traverse k iter t g' (p @ [c]) v) ?cands) ?g2 of
           None \<Rightarrow> first_ok (map (search k iter t (neighbors g) (p @ [c])) ?cands) = None
         | Some (r, g') \<Rightarrow>
             first_ok (map (search k iter t (neighbors g) (p @ [c])) ?cands) = Some r \<and>
             only_empty_keys_added ?g2 g'"
      proof (rule first_true_refines [where nb = "neighbors g"])
        fix v g'
        assume "v \<in> set ?cands" and ng: "neighbors g' = neighbors g"
        from Suc.IH [of g' "p @ [c]" v]
        show "case traverse k iter t g' (p @ [c]) v of
           None \<Rightarrow> search k iter t (neighbors g) (p @ [c]) v = None
         | Some (r, g'') \<Rightarrow>
             search k iter t (neighbors g) (p @ [c]) v = Some r \<and>
             only_empty_keys_added g' g''"
          unfolding ng .
      next
        show "neighbors ?g2 = neighbors g" by (rule n2)
      qed
      have tr: "traverse (Suc k) iter t g p c =
          first_true (map (\<lambda>v g'. traverse k iter t g' (p @ [c]) v) ?cands) ?g2"
        using nt False by (simp add: split_beta fst_getitem Let_def sorted_py_spec n1)
      have se: "search (Suc k) iter t (neighbors g) p c =
          first_ok (map (search k iter t (neighbors g) (p @ [c])) ?cands)"
        using nt False by simp
      from ft show ?thesis unfolding tr se
        by (auto split: option.splits intro: oeka_trans [OF e12])
    qed
  qed
qed

section \<open>Small boards, large boards and dead ends\<close>

lemma knight_move_far:
  "knight_move a b \<Longrightarrow> \<bar>fst b - fst a\<bar> = 2 \<or> \<bar>snd b - snd a\<bar> = 2"
  by (auto simp: knight_move_def MOVE_OFFSETS_def)

lemma neighbors_small_board: "n \<le> 2 \<Longrightarrow> neighbors (build_graph n) v = {}"
proof -
  assume n: "n \<le> 2"
  have "\<not> (in_bounds n v \<and> in_bounds n b \<and> knight_move v b)" for b
    using knight_move_far [of v b] n by (auto simp: in_bounds_def)
  then show ?thesis by (simp add: neighbors_build_graph)
qed

lemma dom_small_board: "n \<le> 2 \<Longrightarrow> dom (build_graph n) = {}"
proof -
  assume n: "n \<le> 2"
  have "\<not> (in_bounds n v \<and> in_bounds n b \<and> knight_move v b)" for v b
    using knight_move_far [of v b] n by (auto simp: in_bounds_def)
  then show ?thesis unfolding dom_build_graph by blast
qed

lemma neighbors_out_of_bounds: "\<not> in_bounds n v \<Longrightarrow> neighbors (build_graph n) v = {}"
  by (simp add: neighbors_build_graph)


lemma traverse_dead_end:
  "int (length p) + 1 \<noteq> t \<Longrightarrow> neighbors g c - set p = {} \<Longrightarrow>
   traverse (Suc k) iter t g p c = Some (PyFalse, snd (getitem g c))"
  by (simp add: split_beta fst_getitem Let_def)

lemma exists_move_big_board:
  assumes "4 \<le> n" "in_bounds n v"
  shows "\<exists>b. in_bounds n b \<and> knight_move v b"
proof -
  obtain r c where v: "v = (r, c)" by (cases v)
  define r' where "r' = (if r + 2 < n then r + 2 else r - 2)"
  define c' where "c' = (if c + 1 < n then c + 1 else c - 1)"
  have ib: "in_bounds n (r', c')"
    using assms by (auto simp: in_bounds_def v r'_def c'_def)
  have "(r' - r, c' - c) \<in> {(2, 1), (2, -1), (-2, 1), (-2, -1)}"
    by (auto simp: r'_def c'_def)
  then have "knight_move v (r', c')"
    by (auto simp: knight_move_def v MOVE_OFFSETS_def)
  with ib show ?thesis by blast
qed

lemma card_cells: "card {v. in_bounds n v} = nat n * nat n"
proof -
  have "{v. in_bounds n v} = {0..<n} \<times> {0..<n}"
    by (auto simp: in_bounds_def)
  then show ?thesis by (simp add: card_cartesian_product)
qed

lemma finite_cells: "finite {v. in_bounds n v}"
proof -
  have "{v. in_bounds n v} = {0..<n} \<times> {0..<n}"
    by (auto simp: in_bounds_def)
  then show ?thesis by simp
qed

section \<open>When the search leaves the dictionary as it is\<close>

lemma getitem_key: "k \<in> dom g \<Longrightarrow> snd (getitem g k) = g"
  by (auto simp: getitem_def)

lemma getitem_absent: "k \<notin> dom g \<Longrightarrow> snd (getitem g k) = g(k \<mapsto> {})"
  by (auto simp: getitem_def split: option.splits)

lemma compute_keys_keeps: "set xs \<subseteq> dom g \<Longrightarrow> snd (compute_keys g xs) = g"
  by (induction xs) (simp_all add: heuristic_spec split_beta getitem_key)

lemma first_true_keeps:
  assumes "\<And>v r g'. v \<in> set vs \<Longrightarrow> f g v = Some (r, g') \<Longrightarrow> g' = g"
    and "first_true (map (\<lambda>v g. f g v) vs) g = Some (r, g')"
  shows "g' = g"
  using assms
proof (induction vs)
  case Nil
  then show ?case by simp
next
  case (Cons v vs)
  show ?case
  proof (cases "f g v")
    case None
    with Cons.prems(2) show ?thesis by simp
  next
    case (Some rg)
    obtain r1 g1 where rg: "rg = (r1, g1)" by (cases rg)
    have g1: "g1 = g" using Cons.prems(1) [of v r1 g1] Some rg by simp
    show ?thesis
    proof (cases "truthy r1")
      case True
      with Cons.prems(2) Some rg g1 show ?thesis by simp
    next
      case False
      with Cons.prems(2) Some rg g1
      have "first_true (map (\<lambda>v g. f g v) vs) g = Some (r, g')" by simp
      then show ?thesis using Cons.IH Cons.prems(1) by auto
    qed
  qed
qed

lemma set_sort_key_iter:
  "set_order iter \<Longrightarrow> finite S \<Longrightarrow> set (sort_key f (iter S)) = S"
  by (simp add: set_order_def)

lemma traverse_keeps_graph:
  assumes "set_order iter" and "\<And>v. finite (neighbors g v)"
    and "\<And>v. neighbors g v \<subseteq> dom g"
  shows "c \<in> dom g \<Longrightarrow> traverse k iter t g p c = Some (r, g') \<Longrightarrow> g' = g"
proof (induction k arbitrary: p c r g')
  case 0
  then show ?case by simp
next
  case (Suc k)
  let ?yet = "neighbors g c - set p"
  let ?cands = "sort_key (\<lambda>v. card (neighbors g v)) (iter ?yet)"
  have fin: "finite ?yet" using assms(2) by simp
  have sc: "set ?cands = ?yet" by (rule set_sort_key_iter [OF assms(1) fin])
  have keys: "set (iter ?yet) \<subseteq> dom g"
    using assms(1) assms(3) [of c] fin by (auto simp: set_order_def)
  have g1: "snd (getitem g c) = g" by (rule getitem_key [OF Suc.prems(1)])
  have g2: "snd (compute_keys g (iter ?yet)) = g" by (rule compute_keys_keeps [OF keys])
  show ?case
  proof (cases "int (length p) + 1 = t \<or> ?yet = {}")
    case True
    with Suc.prems(2) g1 show ?thesis
      by (auto simp: split_beta fst_getitem Let_def split: if_splits)
  next
    case False
    with Suc.prems(2) g1 g2
    have ft: "first_true (map (\<lambda>v g'. traverse k iter t g' (p @ [c]) v) ?cands) g = Some (r, g')"
      by (simp add: split_beta fst_getitem Let_def sorted_py_spec)
    show ?thesis
    proof (rule first_true_keeps [OF _ ft])
      fix v r1 g1
      assume v: "v \<in> set ?cands" and tr: "traverse k iter t g (p @ [c]) v = Some (r1, g1)"
      from v sc assms(3) [of c] have "v \<in> dom g" by blast
      then show "g1 = g" using Suc.IH tr by blast
    qed
  qed
qed

lemma finite_neighbors_build_graph: "finite (neighbors (build_graph n) v)"
proof -
  have "neighbors (build_graph n) v \<subseteq> {b. in_bounds n b}"
    by (auto simp: neighbors_build_graph)
  then show ?thesis using finite_cells finite_subset by blast
qed

lemma closed_build_graph: "neighbors (build_graph n) v \<subseteq> dom (build_graph n)"
proof
  fix b
  assume "b \<in> neighbors (build_graph n) v"
  then have "in_bounds n b" "in_bounds n v" "knight_move b v"
    using knight_move_sym [of v b] by (simp_all add: neighbors_build_graph)
  then show "b \<in> dom (build_graph n)"
    unfolding dom_build_graph by blast
qed

lemma neighbors_absent: "v \<notin> dom g \<Longrightarrow> neighbors g v = {}"
  by (auto simp: neighbors_def split: option.splits)

lemma set_order_sorted: "set_order sorted_list_of_set"
  by (simp add: set_order_def)

section \<open>What the search returns, and that it returns\<close>

lemma first_ok_Tour: "first_ok xs = Some (Tour t) \<Longrightarrow> Some (Tour t) \<in> set xs"
  by (induction xs rule: first_ok.induct) (auto split: if_splits)

lemma first_ok_not_None: "None \<notin> set xs \<Longrightarrow> first_ok xs \<noteq> None"
  by (induction xs rule: first_ok.induct) auto

lemma first_ok_failure: "first_ok xs = Some r \<Longrightarrow> \<not> truthy r \<Longrightarrow> r = PyNone"
  by (induction xs rule: first_ok.induct) (auto split: if_splits)

lemma search_sound:
  assumes "set_order iter" and "\<And>v. finite (nb v)" and "\<And>v. v \<notin> nb v"
  shows "search k iter t nb p c = Some (Tour tour) \<Longrightarrow> distinct (p @ [c]) \<Longrightarrow>
         \<exists>rest. tour = p @ c # rest \<and> int (length tour) = t \<and>
                successively (\<lambda>a b. b \<in> nb a) (c # rest) \<and> distinct tour"
proof (induction k arbitrary: p c)
  case 0
  then show ?case by simp
next
  case (Suc k)
  let ?yet = "nb c - set p"
  let ?cands = "sort_key (\<lambda>v. card (nb v)) (iter ?yet)"
  show ?case
  proof (cases "int (length p) + 1 = t")
    case True
    with Suc.prems have "tour = p @ [c]" by simp
    with True Suc.prems(2) show ?thesis by simp
  next
    case False
    with Suc.prems(1) have ne: "?yet \<noteq> {}" by (auto split: if_splits)
    with False Suc.prems(1)
    have "first_ok (map (search k iter t nb (p @ [c])) ?cands) = Some (Tour tour)" by simp
    from first_ok_Tour [OF this] obtain v where v: "v \<in> set ?cands"
      and sv: "search k iter t nb (p @ [c]) v = Some (Tour tour)" by auto
    have "set ?cands = ?yet"
      by (rule set_sort_key_iter [OF assms(1)]) (simp add: assms(2))
    with v have vy: "v \<in> nb c" "v \<notin> set p" by auto
    with assms(3) [of c] have vc: "v \<noteq> c" by auto
    have d: "distinct ((p @ [c]) @ [v])" using Suc.prems(2) vy vc by auto
    from Suc.IH [OF sv d] obtain rest where
      r: "tour = (p @ [c]) @ v # rest" "int (length tour) = t"
         "successively (\<lambda>a b. b \<in> nb a) (v # rest)" "distinct tour" by blast
    show ?thesis
      by (rule exI [of _ "v # rest"]) (use r vy in simp)
  qed
qed

lemma successively_in_range:
  "successively (\<lambda>a b. b \<in> nb a) (c # rest) \<Longrightarrow> (\<And>v. nb v \<subseteq> B) \<Longrightarrow> set rest \<subseteq> B"
proof (induction rest arbitrary: c)
  case Nil
  show ?case by simp
next
  case (Cons x rest)
  from Cons.prems have "x \<in> nb c" "successively (\<lambda>a b. b \<in> nb a) (x # rest)" by simp_all
  with Cons.IH [of x] Cons.prems(2) show ?case by auto
qed

lemma neighbors_in_cells: "neighbors (build_graph n) v \<subseteq> {b. in_bounds n b}"
  by (auto simp: neighbors_build_graph)

lemma no_self_loop: "v \<notin> neighbors (build_graph n) v"
  by (simp add: neighbors_build_graph knight_move_irrefl)

lemma search_terminates:
  assumes "set_order iter"
  shows "distinct (p @ [c]) \<Longrightarrow> set (tl (p @ [c])) \<subseteq> {v. in_bounds n v} \<Longrightarrow>
         nat n * nat n + 1 \<le> length p + k \<Longrightarrow>
         search k iter t (neighbors (build_graph n)) p c \<noteq> None"
proof (induction k arbitrary: p c)
  case 0
  have "distinct (tl (p @ [c]))" using "0.prems"(1) by (rule distinct_tl)
  then have "length (tl (p @ [c])) = card (set (tl (p @ [c])))" by (simp add: distinct_card)
  also have "\<dots> \<le> card {v. in_bounds n v}"
    by (rule card_mono [OF finite_cells "0.prems"(2)])
  finally have "length p \<le> nat n * nat n" by (simp add: card_cells)
  with "0.prems"(3) show ?case by simp
next
  case (Suc k)
  let ?nb = "neighbors (build_graph n)"
  let ?yet = "?nb c - set p"
  let ?cands = "sort_key (\<lambda>v. card (?nb v)) (iter ?yet)"
  show ?case
  proof (cases "int (length p) + 1 = t \<or> ?yet = {}")
    case True
    then show ?thesis by auto
  next
    case False
    have sc: "set ?cands = ?yet"
      by (rule set_sort_key_iter [OF assms]) (simp add: finite_neighbors_build_graph)
    have "search k iter t ?nb (p @ [c]) v \<noteq> None" if "v \<in> set ?cands" for v
    proof (rule Suc.IH)
      from that sc have vy: "v \<in> ?nb c" "v \<notin> set p" by auto
      with no_self_loop [of c n] have vc: "v \<noteq> c" by auto
      show "distinct ((p @ [c]) @ [v])" using Suc.prems(1) vy vc by auto
      have "in_bounds n v" using vy(1) neighbors_in_cells by blast
      moreover have "tl ((p @ [c]) @ [v]) = tl (p @ [c]) @ [v]" by (cases p) simp_all
      ultimately show "set (tl ((p @ [c]) @ [v])) \<subseteq> {v. in_bounds n v}"
        using Suc.prems(2) by auto
      show "nat n * nat n + 1 \<le> length (p @ [c]) + k" using Suc.prems(3) by simp
    qed
    then have "None \<notin> set (map (search k iter t ?nb (p @ [c])) ?cands)"
      by (metis (no_types, lifting) imageE list.set_map)
    from first_ok_not_None [OF this] False show ?thesis by simp
  qed
qed

lemma traverse_terminates:
  assumes "set_order iter" and "nat n * nat n + 1 \<le> fuel"
  shows "\<exists>r g'. traverse fuel iter t (build_graph n) [] start = Some (r, g') \<and>
           search fuel iter t (neighbors (build_graph n)) [] start = Some r"
proof -
  have "search fuel iter t (neighbors (build_graph n)) [] start \<noteq> None"
    by (rule search_terminates [OF assms(1)]) (use assms(2) in simp_all)
  with traverse_refines [of fuel iter t "build_graph n" "[]" start]
  show ?thesis by (auto split: option.splits)
qed

section \<open>Boards without a tour, and evaluation of the search\<close>

lemma extend_complete:
  "successively knight_move (c # rest) \<Longrightarrow> distinct (c # rest) \<Longrightarrow>
   set (c # rest) \<inter> set vis = {} \<Longrightarrow> set rest \<subseteq> {v. in_bounds n v} \<Longrightarrow>
   extend (length rest) n vis c"
proof (induction rest arbitrary: c vis)
  case Nil
  show ?case by simp
next
  case (Cons x rest)
  from Cons.prems(1) have km: "knight_move c x" and s: "successively knight_move (x # rest)"
    by simp_all
  from Cons.prems(4) have ib: "in_bounds n x" and sub: "set rest \<subseteq> {v. in_bounds n v}"
    by simp_all
  have mem: "x \<in> set (legal_moves_from (fst c) (snd c) n)"
    using km ib by (simp add: legal_moves_from_iff)
  have fresh: "x \<notin> set (c # vis)" using Cons.prems(2,3) by auto
  have d: "distinct (x # rest)" using Cons.prems(2) by simp
  have disj: "set (x # rest) \<inter> set (c # vis) = {}" using Cons.prems(2,3) by auto
  have "extend (length rest) n (c # vis) x" by (rule Cons.IH [OF s d disj sub])
  with mem fresh show ?case by (auto simp: list_ex_iff)
qed

lemma in_bounds_row_cells: "in_bounds n v \<longleftrightarrow> 0 \<le> fst v \<and> fst v < n \<and> v \<in> set (row_cells n (fst v))"
  by (cases v) (auto simp: in_bounds_def row_cells_def set_range_py)

lemma no_extension_2: "list_all (\<lambda>s. \<not> extend 3 2 [] s) (row_cells 2 0 @ row_cells 2 1)"
  by code_simp

lemma no_extension_3:
  "list_all (\<lambda>s. \<not> extend 8 3 [] s) (row_cells 3 0 @ row_cells 3 1 @ row_cells 3 2)"
  by code_simp

lemma no_extension_4_row0: "list_all (\<lambda>s. \<not> extend 15 4 [] s) (row_cells 4 0)"
  by code_simp

lemma no_extension_4_row1: "list_all (\<lambda>s. \<not> extend 15 4 [] s) (row_cells 4 1)"
  by code_simp

lemma no_extension_4_row2: "list_all (\<lambda>s. \<not> extend 15 4 [] s) (row_cells 4 2)"
  by code_simp

lemma no_extension_4_row3: "list_all (\<lambda>s. \<not> extend 15 4 [] s) (row_cells 4 3)"
  by code_simp

lemma no_extension:
  assumes "n = 2 \<or> n = 3 \<or> n = 4" and "in_bounds n s"
  shows "\<not> extend (nat (n * n) - 1) n [] s"
proof -
  from assms(2) have r: "0 \<le> fst s" "fst s < n" and m: "s \<in> set (row_cells n (fst s))"
    using in_bounds_row_cells by blast+
  from assms(1) show ?thesis
  proof (elim disjE)
    assume n: "n = 2"
    with r have "fst s = 0 \<or> fst s = 1" by arith
    with m n no_extension_2 show ?thesis by (auto simp: list_all_iff)
  next
    assume n: "n = 3"
    with r have "fst s = 0 \<or> fst s = 1 \<or> fst s = 2" by arith
    with m n no_extension_3 show ?thesis by (auto simp: list_all_iff)
  next
    assume n: "n = 4"
    with r have "fst s = 0 \<or> fst s = 1 \<or> fst s = 2 \<or> fst s = 3" by arith
    with m n no_extension_4_row0 no_extension_4_row1 no_extension_4_row2 no_extension_4_row3
    show ?thesis by (auto simp: list_all_iff)
  qed
qed

lemma no_tour_small_board:
  assumes "n = 2 \<or> n = 3 \<or> n = 4"
    and "distinct tour" and "set tour = {v. in_bounds n v}"
    and "successively knight_move tour" and "int (length tour) = n * n"
  shows False
proof -
  from assms(1,5) have "tour \<noteq> []" by auto
  then obtain s rest where t: "tour = s # rest" by (cases tour) auto
  have ib: "in_bounds n s" using assms(3) t by auto
  have sub: "set rest \<subseteq> {v. in_bounds n v}" using assms(3) t by auto
  have "extend (length rest) n [] s"
    by (rule extend_complete) (use assms(2,4) t sub in simp_all)
  moreover have "length rest = nat (n * n) - 1" using assms(5) t by simp
  ultimately show False using no_extension [OF assms(1) ib] by simp
qed

lemma neighbors_build_graph_code:
  "neighbors (build_graph n) =
     (\<lambda>v. if in_bounds n v then set (legal_moves_from (fst v) (snd v) n) else {})"
proof
  fix v
  show "neighbors (build_graph n) v =
     (if in_bounds n v then set (legal_moves_from (fst v) (snd v) n) else {})"
    by (auto simp: neighbors_build_graph legal_moves_from_iff)
qed

lemma search_3_00:
  "search 9 sorted_list_of_set 9
     (\<lambda>v. if in_bounds 3 v then set (legal_moves_from (fst v) (snd v) 3) else {}) [] (0, 0) =
   Some PyNone"
  by code_simp


lemma try_each_code [code]:
  "try_each h [] = Some PyNone"
  "try_each h (v # vs) =
     (case h v of None \<Rightarrow> None
      | Some r \<Rightarrow> if truthy r then Some r else try_each h vs)"
  by (simp_all add: try_each_def split: option.splits)

lemma search_code [code]:
  "search 0 iter t nb p c = None"
  "search (Suc k) iter t nb p c =
     (if int (length p) + 1 = t then Some (Tour (p @ [c]))
      else if nb c - set p = {} then Some PyFalse
      else try_each (search k iter t nb (p @ [c]))
             (sort_key (\<lambda>v. card (nb v)) (iter (nb c - set p))))"
  by (simp_all add: try_each_def)

lemma search_5_00:
  "search 25 sorted_list_of_set 25
     (\<lambda>v. if in_bounds 5 v then set (legal_moves_from (fst v) (snd v) 5) else {}) [] (0, 0) =
   Some (Tour [(0, 0), (1, 2), (0, 4), (2, 3), (4, 4), (3, 2), (4, 0), (2, 1), (0, 2), (1, 0),
     (3, 1), (4, 3), (2, 4), (0, 3), (1, 1), (3, 0), (4, 2), (3, 4), (1, 3), (0, 1), (2, 0),
     (4, 1), (3, 3), (1, 4), (2, 2)])"
  by code_simp


lemma search_terminates_tight:
  "int (length p) < t \<Longrightarrow> nat t \<le> length p + k \<Longrightarrow> search k iter t nb p c \<noteq> None"
proof (induction k arbitrary: p c)
  case 0
  then show ?case by simp
next
  case (Suc k)
  let ?cands = "sort_key (\<lambda>v. card (nb v)) (iter (nb c - set p))"
  show ?case
  proof (cases "int (length p) + 1 = t \<or> nb c - set p = {}")
    case True
    then show ?thesis by auto
  next
    case False
    have "search k iter t nb (p @ [c]) v \<noteq> None" for v
      by (rule Suc.IH) (use Suc.prems False in auto)
    then have "None \<notin> set (map (search k iter t nb (p @ [c])) ?cands)"
      by (metis (no_types, lifting) imageE list.set_map)
    from first_ok_not_None [OF this] False show ?thesis by simp
  qed
qed

lemma tour_of_search:
  assumes "1 \<le> n" and "in_bounds n start" and "set_order iter"
    and "traverse fuel iter (n * n) (build_graph n) [] start = Some (Tour tour, g')"
  shows "int (length tour) = n * n \<and> distinct tour \<and> set tour = {v. in_bounds n v} \<and>
         hd tour = start \<and> successively knight_move tour \<and>
         successively (\<lambda>a b. b \<in> neighbors (build_graph n) a) tour"
proof -
  let ?nb = "neighbors (build_graph n)"
  from traverse_refines [of fuel iter "n * n" "build_graph n" "[]" start] assms(4)
  have s: "search fuel iter (n * n) ?nb [] start = Some (Tour tour)" by simp
  from search_sound [OF assms(3) finite_neighbors_build_graph no_self_loop s]
  obtain rest where r: "tour = start # rest" "int (length tour) = n * n"
    "successively (\<lambda>a b. b \<in> ?nb a) (start # rest)" "distinct tour" by auto
  have "set rest \<subseteq> {v. in_bounds n v}"
    by (rule successively_in_range [OF r(3)]) (rule neighbors_in_cells)
  with assms(2) r(1) have sub: "set tour \<subseteq> {v. in_bounds n v}" by auto
  have "card (set tour) = nat (n * n)"
    using r(2,4) by (simp add: distinct_card)
  also have "\<dots> = card {v. in_bounds n v}"
    using assms(1) by (simp add: card_cells nat_mult_distrib)
  finally have "set tour = {v. in_bounds n v}"
    using sub finite_cells by (simp add: card_subset_eq)
  moreover have "successively knight_move tour"
    using r(3) unfolding r(1) [symmetric]
    by (rule successively_mono) (simp add: neighbors_build_graph)
  ultimately show ?thesis using r by simp
qed

section \<open>One step of the search\<close>

lemma traverse_outcome:
  "map_option fst (traverse k iter t g p c) = search k iter t (neighbors g) p c"
  using traverse_refines [of k iter t g p c] by (auto split: option.splits)

lemma first_ok_first_success:
  assumes "\<forall>u\<in>set pre. \<exists>r'. h u = Some r' \<and> \<not> truthy r'" and "h v = Some r" and "truthy r"
  shows "first_ok (map h (pre @ v # post)) = Some r"
  using assms by (induction pre) auto

lemma move_set_code [code]:
  "move_set n v = (if in_bounds n v then set (legal_moves_from (fst v) (snd v) n) else {})"
  by (simp add: move_set_def neighbors_build_graph_code)

lemma next_vertices_eq:
  "fst (sorted_py (snd (getitem (build_graph n) c)) xs) = sort_key (\<lambda>v. card (move_set n v)) xs"
proof -
  have "neighbors (snd (getitem (build_graph n) c)) = neighbors (build_graph n)"
    by (rule oeka_neighbors [OF oeka_getitem])
  then show ?thesis by (simp add: sorted_py_spec move_set_def)
qed

lemma search_5_12:
  "search 24 sorted_list_of_set 25 (move_set 5) [(0, 0)] (1, 2) =
   Some (Tour [(0, 0), (1, 2), (0, 4), (2, 3), (4, 4), (3, 2), (4, 0), (2, 1), (0, 2), (1, 0),
     (3, 1), (4, 3), (2, 4), (0, 3), (1, 1), (3, 0), (4, 2), (3, 4), (1, 3), (0, 1), (2, 0),
     (4, 1), (3, 3), (1, 4), (2, 2)])"
  by code_simp

section \<open>Claims about the move graph and the heuristic\<close>

text \<open>C6. The graph that \<open>build_graph\<close> returns is a symmetric relation: \<open>b\<close> is
  in the neighbour set of \<open>a\<close> exactly when \<open>a\<close> is in the neighbour set of \<open>b\<close>, for
  every board size.\<close>

theorem build_graph_symmetric:
  "b \<in> neighbors (build_graph n) a \<longleftrightarrow> a \<in> neighbors (build_graph n) b"
  using knight_move_sym [of a b] by (auto simp: neighbors_build_graph)

theorem build_graph_symmetric_witness:
  "(1, 2) \<in> neighbors (build_graph 3) (0, 0) \<and> (0, 0) \<in> neighbors (build_graph 3) (1, 2)"
proof -
  have "(1, 2) \<in> neighbors (build_graph 3) (0, 0)"
    by (simp add: neighbors_build_graph in_bounds_def knight_move_def MOVE_OFFSETS_def)
  with build_graph_symmetric [of "(1, 2)" 3 "(0, 0)"] show ?thesis by simp
qed

text \<open>C5. The heuristic score of a vertex is the size of the whole neighbour set the
  graph holds for it. The function takes no path, so visited cells are not excluded;
  the read leaves every neighbour set as it was.\<close>

theorem warnsdorffs_heuristic_degree:
  "fst (warnsdorffs_heuristic graph vertex) = card (neighbors graph vertex) \<and>
   neighbors (snd (warnsdorffs_heuristic graph vertex)) = neighbors graph"
  by (simp add: warnsdorffs_heuristic_def split_beta fst_getitem neighbors_getitem fun_eq_iff)

lemma neighbors_3_00: "neighbors (build_graph 3) (0, 0) = {(1, 2), (2, 1)}"
  by (auto simp: neighbors_build_graph in_bounds_def knight_move_def MOVE_OFFSETS_def)

theorem warnsdorffs_heuristic_degree_witness:
  "fst (warnsdorffs_heuristic (build_graph 3) (0, 0)) = 2"
  using warnsdorffs_heuristic_degree [of "build_graph 3" "(0, 0)"]
  by (simp add: neighbors_3_00)

text \<open>C7, as the code has it. The keys of the mapping are the cells that have at least
  one legal move, not every cell: a cell becomes a key only when \<open>add_edge\<close> touches
  it. From board size 4 on every cell has a move, and the mapping has \<open>n * n\<close> keys;
  up to board size 2 no cell has one and the mapping is empty, so for board size 1 the
  vertex \<open>(0, 0)\<close> is not a key, and a read of it observes the empty set.\<close>

theorem build_graph_keys:
  "dom (build_graph n) = {v. in_bounds n v \<and> legal_moves_from (fst v) (snd v) n \<noteq> []} \<and>
   (4 \<le> n \<longrightarrow> dom (build_graph n) = {v. in_bounds n v} \<and>
                card (dom (build_graph n)) = nat (n * n)) \<and>
   (n \<le> 2 \<longrightarrow> build_graph n = Map.empty) \<and>
   neighbors (build_graph 1) (0, 0) = {}"
proof -
  have a: "dom (build_graph n) =
      {v. in_bounds n v \<and> legal_moves_from (fst v) (snd v) n \<noteq> []}"
  proof -
    have "legal_moves_from (fst v) (snd v) n \<noteq> [] \<longleftrightarrow>
        (\<exists>b. in_bounds n b \<and> knight_move v b)" for v
    proof -
      have "legal_moves_from (fst v) (snd v) n \<noteq> [] \<longleftrightarrow>
          (\<exists>b. b \<in> set (legal_moves_from (fst v) (snd v) n))"
        by (cases "legal_moves_from (fst v) (snd v) n") auto
      then show ?thesis by (simp add: legal_moves_from_iff)
    qed
    then show ?thesis by (simp add: dom_build_graph)
  qed
  have b: "dom (build_graph n) = {v. in_bounds n v}" if "4 \<le> n"
    using exists_move_big_board [OF that] unfolding dom_build_graph by blast
  have c: "build_graph n = Map.empty" if "n \<le> 2"
    using dom_small_board [OF that] by simp
  have d: "neighbors (build_graph 1) (0, 0) = {}"
    by (rule neighbors_small_board) simp
  have e: "card (dom (build_graph n)) = nat (n * n)" if "4 \<le> n"
    using that by (simp add: b card_cells nat_mult_distrib)
  from a b c d e show ?thesis by blast
qed

theorem build_graph_keys_witness:
  "card (dom (build_graph 4)) = 16 \<and> build_graph 1 = Map.empty"
proof -
  from build_graph_keys [of 4]
  have "(4::int) \<le> 4 \<longrightarrow> card (dom (build_graph 4)) = nat (4 * 4)" by blast
  moreover from build_graph_keys [of 1]
  have "(1::int) \<le> 2 \<longrightarrow> build_graph 1 = Map.empty" by blast
  ultimately show ?thesis by simp
qed

theorem build_graph_keys_counterexample:
  "(0, 0) \<notin> dom (build_graph 1) \<and> card (dom (build_graph 1)) = 0"
  by (simp add: dom_small_board)

section \<open>Claims about the search\<close>

text \<open>C10. On a board of size 1 the search returns the one-element sequence that holds
  the start vertex, for every start vertex, in bounds or not: the test
  \<^verbatim>\<open>len(path) + 1 == total_squares\<close> comes before any read of the graph.\<close>

theorem single_cell_board_any_start:
  "traverse (Suc fuel) iter (1 * 1) (build_graph 1) [] (start_row, start_col) =
     Some (Tour [(start_row, start_col)], build_graph 1) \<and>
   find_knights_tour (Suc fuel) iter 1 start_row start_col = Some (Inr [(start_row, start_col)])"
  by (simp add: find_knights_tour_def)

theorem single_cell_board_any_start_witness:
  "find_knights_tour 1 sorted_list_of_set 1 5 5 = Some (Inr [(5, 5)])"
  using single_cell_board_any_start [of 0 sorted_list_of_set 5 5] by simp

text \<open>C2, evaluated at board size 2 and start \<open>(0, 0)\<close>: the search ends with \<^verbatim>\<open>False\<close>,
  and \<open>find_knights_tour\<close> then raises \<^verbatim>\<open>TypeError\<close> while writing the solution instead
  of returning the failure to its caller.\<close>

theorem no_tour_raises_type_error:
  "traverse (Suc fuel) iter (2 * 2) (build_graph 2) [] (0, 0) =
     Some (PyFalse, (build_graph 2)((0, 0) \<mapsto> {})) \<and>
   find_knights_tour (Suc fuel) iter 2 0 0 = Some (Inl TypeError)"
proof -
  have e: "build_graph 2 = Map.empty" using dom_small_board [of 2] by simp
  have "traverse (Suc fuel) iter (2 * 2) (build_graph 2) [] (0, 0) =
     Some (PyFalse, snd (getitem (build_graph 2) (0, 0)))"
    by (rule traverse_dead_end) (simp_all add: neighbors_small_board)
  then have t: "traverse (Suc fuel) iter (2 * 2) (build_graph 2) [] (0, 0) =
     Some (PyFalse, (build_graph 2)((0, 0) \<mapsto> {}))"
    by (simp add: getitem_def e)
  from t show ?thesis
    unfolding find_knights_tour_def Let_def by simp
qed




text \<open>C8, as the code has it. The search never changes a neighbour set and adds no
  edge: every read observes the graph that \<open>build_graph\<close> returned. It can add a
  vertex, though: a read of a vertex that is not a key stores the empty set under it.
  Every neighbour in the built graph is a key, so this happens only for the start
  vertex, when it has no legal move or lies outside the board; from board size 4 on
  and for a start vertex on the board the dictionary is left exactly as it was.\<close>

theorem search_only_reads_graph:
  assumes "set_order iter"
    and "traverse fuel iter total_squares (build_graph n) [] start = Some (r, g')"
  shows "neighbors g' = neighbors (build_graph n) \<and>
         (\<forall>v. g' v = build_graph n v \<or> (build_graph n v = None \<and> g' v = Some {})) \<and>
         (g' = build_graph n \<or>
            (start \<notin> dom (build_graph n) \<and> g' = (build_graph n)(start \<mapsto> {}))) \<and>
         (4 \<le> n \<and> in_bounds n start \<longrightarrow> g' = build_graph n)"
proof -
  let ?G = "build_graph n"
  from traverse_refines [of fuel iter total_squares ?G "[]" start] assms(2)
  have e: "only_empty_keys_added ?G g'" by simp
  have a: "neighbors g' = neighbors ?G" by (rule oeka_neighbors [OF e])
  have b: "\<forall>v. g' v = ?G v \<or> (?G v = None \<and> g' v = Some {})"
    using e by (simp add: only_empty_keys_added_def)
  have key: "g' = ?G" if "start \<in> dom ?G"
    by (rule traverse_keeps_graph [OF assms(1) finite_neighbors_build_graph
          closed_build_graph that assms(2)])
  have c: "g' = ?G \<or> (start \<notin> dom ?G \<and> g' = ?G(start \<mapsto> {}))"
  proof (cases "start \<in> dom ?G")
    case True
    then show ?thesis using key by simp
  next
    case False
    obtain k where k: "fuel = Suc k" using assms(2) by (cases fuel) simp_all
    show ?thesis
      using assms(2) False neighbors_absent [OF False] getitem_absent [OF False]
      unfolding k by (auto simp: split_beta fst_getitem Let_def split: if_splits)
  qed
  have d: "g' = ?G" if "4 \<le> n \<and> in_bounds n start"
  proof -
    have "dom ?G = {v. in_bounds n v}"
      using that exists_move_big_board [of n] unfolding dom_build_graph by blast
    with that key show ?thesis by simp
  qed
  from a b c d show ?thesis by blast
qed

theorem search_only_reads_graph_counterexample:
  "traverse 1 sorted_list_of_set (2 * 2) (build_graph 2) [] (0, 0) =
     Some (PyFalse, (build_graph 2)((0, 0) \<mapsto> {})) \<and>
   build_graph 2 (0, 0) = None \<and>
   ((build_graph 2)((0, 0) \<mapsto> {})) (0, 0) = Some {}"
proof -
  have e: "build_graph 2 = Map.empty" using dom_small_board [of 2] by simp
  have "traverse 1 sorted_list_of_set (2 * 2) (build_graph 2) [] (0, 0) =
     Some (PyFalse, snd (getitem (build_graph 2) (0, 0)))"
    unfolding One_nat_def by (rule traverse_dead_end) (simp_all add: neighbors_small_board)
  then show ?thesis by (simp add: getitem_def e)
qed

theorem search_only_reads_graph_witness:
  "snd (the (traverse 1 sorted_list_of_set (2 * 2) (build_graph 2) [] (0, 0))) =
     (build_graph 2)((0, 0) \<mapsto> {}) \<and>
   neighbors ((build_graph 2)((0, 0) \<mapsto> {})) = neighbors (build_graph 2)"
proof -
  have e: "build_graph 2 = Map.empty" using dom_small_board [of 2] by simp
  have "traverse 1 sorted_list_of_set (2 * 2) (build_graph 2) [] (0, 0) =
     Some (PyFalse, snd (getitem (build_graph 2) (0, 0)))"
    unfolding One_nat_def by (rule traverse_dead_end) (simp_all add: neighbors_small_board)
  then have t: "traverse 1 sorted_list_of_set (2 * 2) (build_graph 2) [] (0, 0) =
     Some (PyFalse, (build_graph 2)((0, 0) \<mapsto> {}))" by (simp add: getitem_def e)
  from search_only_reads_graph [OF set_order_sorted t] t show ?thesis by simp
qed

text \<open>C1. For a board size of at least 1 and a start vertex on the board, a sequence
  that the search returns has \<open>n * n\<close> elements, holds every cell of the board exactly
  once, begins with the start vertex, and each of its elements is one knight move from
  the one before it, which is an edge of the built graph.\<close>

theorem successful_search_is_tour:
  assumes "1 \<le> n" and "in_bounds n start" and "set_order iter"
    and "traverse fuel iter (n * n) (build_graph n) [] start = Some (Tour tour, g')"
  shows "int (length tour) = n * n \<and> distinct tour \<and> set tour = {v. in_bounds n v} \<and>
         hd tour = start \<and> successively knight_move tour \<and>
         successively (\<lambda>a b. b \<in> neighbors (build_graph n) a) tour"
  by (rule tour_of_search [OF assms])

theorem successful_search_is_tour_witness:
  "map_option fst (traverse 25 sorted_list_of_set (5 * 5) (build_graph 5) [] (0, 0)) =
     Some (Tour [(0, 0), (1, 2), (0, 4), (2, 3), (4, 4), (3, 2), (4, 0), (2, 1), (0, 2), (1, 0),
       (3, 1), (4, 3), (2, 4), (0, 3), (1, 1), (3, 0), (4, 2), (3, 4), (1, 3), (0, 1), (2, 0),
       (4, 1), (3, 3), (1, 4), (2, 2)]) \<and>
   set [(0, 0), (1, 2), (0, 4), (2, 3), (4, 4), (3, 2), (4, 0), (2, 1), (0, 2), (1, 0),
       (3, 1), (4, 3), (2, 4), (0, 3), (1, 1), (3, 0), (4, 2), (3, 4), (1, 3), (0, 1), (2, 0),
       (4, 1), (3, 3), (1, 4), (2, 2)] = {v. in_bounds 5 v}"
proof -
  let ?tour = "[(0, 0), (1, 2), (0, 4), (2, 3), (4, 4), (3, 2), (4, 0), (2, 1), (0, 2), (1, 0),
       (3, 1), (4, 3), (2, 4), (0, 3), (1, 1), (3, 0), (4, 2), (3, 4), (1, 3), (0, 1), (2, 0),
       (4, 1), (3, 3), (1, 4), (2, 2)] :: vertex list"
  have s: "search 25 sorted_list_of_set (5 * 5) (neighbors (build_graph 5)) [] (0, 0) =
      Some (Tour ?tour)"
    using search_5_00 by (simp add: neighbors_build_graph_code)
  with traverse_refines [of 25 sorted_list_of_set "5 * 5" "build_graph 5" "[]" "(0, 0)"]
  obtain g' where t: "traverse 25 sorted_list_of_set (5 * 5) (build_graph 5) [] (0, 0) =
      Some (Tour ?tour, g')"
    by (auto split: option.splits)
  have ib: "in_bounds 5 (0, 0)" by (simp add: in_bounds_def)
  from successful_search_is_tour [OF _ ib set_order_sorted t]
  have "set ?tour = {v. in_bounds 5 v}" by simp
  with t show ?thesis by simp
qed

text \<open>C9. For a board size of at least 1 and every start vertex the search returns
  once its fuel, the recursion depth allowed, is the number of cells: the path grows by
  one cell with each recursive call and the search stops when it holds \<open>n * n\<close> cells.
  What it returns is a sequence of \<open>n * n\<close> cells or one of the two failures, and on the
  boards of size 2, 3 and 4 it is a failure, for every start vertex.\<close>

theorem traverse_terminates_on_every_board:
  assumes "1 \<le> n" and "set_order iter" and "nat (n * n) \<le> fuel"
  shows "\<exists>r g'. traverse fuel iter (n * n) (build_graph n) [] start = Some (r, g') \<and>
           ((\<exists>tour. r = Tour tour \<and> int (length tour) = n * n) \<or> r = PyFalse \<or> r = PyNone) \<and>
           (n = 2 \<or> n = 3 \<or> n = 4 \<longrightarrow> r = PyFalse \<or> r = PyNone)"
proof -
  let ?nb = "neighbors (build_graph n)"
  from assms(1) have pos: "0 < n * n" by simp
  have "search fuel iter (n * n) ?nb [] start \<noteq> None"
    by (rule search_terminates_tight) (use pos assms(3) in simp_all)
  with traverse_refines [of fuel iter "n * n" "build_graph n" "[]" start]
  obtain r g' where tr: "traverse fuel iter (n * n) (build_graph n) [] start = Some (r, g')"
    and se: "search fuel iter (n * n) ?nb [] start = Some r"
    by (auto split: option.splits)
  have a: "(\<exists>tour. r = Tour tour \<and> int (length tour) = n * n) \<or> r = PyFalse \<or> r = PyNone"
  proof (cases r)
    case (Tour tour)
    from search_sound [OF assms(2) finite_neighbors_build_graph no_self_loop
        se [unfolded Tour]]
    have "int (length tour) = n * n" by auto
    with Tour show ?thesis by simp
  qed simp_all
  have b: "r = PyFalse \<or> r = PyNone" if small: "n = 2 \<or> n = 3 \<or> n = 4"
  proof (cases r)
    case (Tour tour)
    show ?thesis
    proof (cases "in_bounds n start")
      case True
      from tour_of_search [OF assms(1) True assms(2) tr [unfolded Tour]]
      have "distinct tour" "set tour = {v. in_bounds n v}" "successively knight_move tour"
        "int (length tour) = n * n" by simp_all
      with no_tour_small_board [OF small] show ?thesis by blast
    next
      case False
      from small assms(3) obtain k where k: "fuel = Suc k" by (cases fuel) auto
      from small have "int (length ([] :: vertex list)) + 1 \<noteq> n * n" by auto
      from traverse_dead_end [OF this, of "build_graph n" start k iter]
        neighbors_out_of_bounds [OF False] tr Tour k
      show ?thesis by simp
    qed
  qed simp_all
  from tr a b show ?thesis by blast
qed

theorem traverse_terminates_on_every_board_witness:
  "map_option fst (traverse 9 sorted_list_of_set (3 * 3) (build_graph 3) [] (0, 0)) =
     Some PyNone"
proof -
  from traverse_terminates_on_every_board [of 3 sorted_list_of_set 9 "(0, 0)"] set_order_sorted
  obtain r g' where t: "traverse 9 sorted_list_of_set (3 * 3) (build_graph 3) [] (0, 0) =
      Some (r, g')" by auto
  with traverse_refines [of 9 sorted_list_of_set "3 * 3" "build_graph 3" "[]" "(0, 0)"]
  have "search 9 sorted_list_of_set (3 * 3) (neighbors (build_graph 3)) [] (0, 0) = Some r"
    by simp
  with search_3_00 have "r = PyNone" by (simp add: neighbors_build_graph_code)
  with t show ?thesis by simp
qed

text \<open>C4, as the code has it. At a step with unvisited neighbours the candidates are
  the elements of the set \<^verbatim>\<open>yet_to_visit\<close>, sorted by degree: they are tried in
  ascending order of degree, candidates of equal degree in the order in which the set is
  iterated (the sort is stable), and the result of the step is the result of the first
  candidate whose attempt succeeds, whatever the later candidates would return. The order
  of the offsets plays no part: what is sorted is a set, not the list of moves.\<close>

theorem candidates_tried_in_degree_order:
  assumes "int (length path) + 1 \<noteq> total_squares"
    and "yet_to_visit = neighbors graph current_vertex - set path"
    and "yet_to_visit \<noteq> {}"
    and "next_vertices = fst (sorted_py (snd (getitem graph current_vertex)) (iter yet_to_visit))"
  shows "sorted (map (\<lambda>v. card (neighbors graph v)) next_vertices) \<and>
         set next_vertices = set (iter yet_to_visit) \<and>
         length next_vertices = length (iter yet_to_visit) \<and>
         (\<forall>k. filter (\<lambda>v. card (neighbors graph v) = k) next_vertices =
               filter (\<lambda>v. card (neighbors graph v) = k) (iter yet_to_visit)) \<and>
         (\<forall>pre v post r.
            next_vertices = pre @ v # post \<and>
            (\<forall>u\<in>set pre. \<exists>r'.
               map_option fst (traverse fuel iter total_squares graph (path @ [current_vertex]) u)
                 = Some r' \<and> \<not> truthy r') \<and>
            map_option fst (traverse fuel iter total_squares graph (path @ [current_vertex]) v)
              = Some r \<and> truthy r \<longrightarrow>
            map_option fst (traverse (Suc fuel) iter total_squares graph path current_vertex)
              = Some r)"
proof -
  let ?deg = "\<lambda>v. card (neighbors graph v)"
  have n1: "neighbors (snd (getitem graph current_vertex)) = neighbors graph"
    by (rule oeka_neighbors [OF oeka_getitem])
  have nv: "next_vertices = sort_key ?deg (iter yet_to_visit)"
    by (simp add: assms(4) sorted_py_spec n1)
  have a: "sorted (map ?deg next_vertices)" unfolding nv by (rule sorted_sort_key)
  have b: "set next_vertices = set (iter yet_to_visit)" unfolding nv by simp
  have c: "length next_vertices = length (iter yet_to_visit)" unfolding nv by simp
  have d: "filter (\<lambda>v. ?deg v = k) next_vertices = filter (\<lambda>v. ?deg v = k) (iter yet_to_visit)"
    for k unfolding nv by (rule sort_key_stable)
  have se: "search (Suc fuel) iter total_squares (neighbors graph) path current_vertex =
      first_ok (map (search fuel iter total_squares (neighbors graph) (path @ [current_vertex]))
        next_vertices)"
    using assms(1,2,3) by (simp add: nv)
  have e: "map_option fst (traverse (Suc fuel) iter total_squares graph path current_vertex)
              = Some r"
    if "next_vertices = pre @ v # post"
      and "\<forall>u\<in>set pre. \<exists>r'.
               map_option fst (traverse fuel iter total_squares graph (path @ [current_vertex]) u)
                 = Some r' \<and> \<not> truthy r'"
      and "map_option fst (traverse fuel iter total_squares graph (path @ [current_vertex]) v)
              = Some r" and "truthy r"
    for pre v post r
    using that first_ok_first_success [of pre
        "search fuel iter total_squares (neighbors graph) (path @ [current_vertex])" v r post]
    unfolding traverse_outcome se by simp
  from a b c d e show ?thesis by blast
qed


theorem candidates_tried_in_degree_order_witness:
  "fst (sorted_py (snd (getitem (build_graph 5) (0, 0)))
          (sorted_list_of_set (neighbors (build_graph 5) (0, 0) - set []))) = [(1, 2), (2, 1)] \<and>
   map_option fst (traverse 24 sorted_list_of_set (5 * 5) (build_graph 5) [(0, 0)] (1, 2)) =
     map_option fst (traverse 25 sorted_list_of_set (5 * 5) (build_graph 5) [] (0, 0)) \<and>
   map_option fst (traverse 25 sorted_list_of_set (5 * 5) (build_graph 5) [] (0, 0)) =
     Some (Tour [(0, 0), (1, 2), (0, 4), (2, 3), (4, 4), (3, 2), (4, 0), (2, 1), (0, 2), (1, 0),
       (3, 1), (4, 3), (2, 4), (0, 3), (1, 1), (3, 0), (4, 2), (3, 4), (1, 3), (0, 1), (2, 0),
       (4, 1), (3, 3), (1, 4), (2, 2)])"
proof -
  let ?tour = "[(0, 0), (1, 2), (0, 4), (2, 3), (4, 4), (3, 2), (4, 0), (2, 1), (0, 2), (1, 0),
       (3, 1), (4, 3), (2, 4), (0, 3), (1, 1), (3, 0), (4, 2), (3, 4), (1, 3), (0, 1), (2, 0),
       (4, 1), (3, 3), (1, 4), (2, 2)] :: vertex list"
  let ?yet = "neighbors (build_graph 5) (0, 0) - set []"
  let ?nv = "fst (sorted_py (snd (getitem (build_graph 5) (0, 0))) (sorted_list_of_set ?yet))"
  have nv0: "?nv = [(1, 2), (2, 1)]"
    unfolding next_vertices_eq move_set_def [symmetric] by code_simp
  then have nv: "?nv = [] @ (1, 2) # [(2, 1)]" by simp
  have ne: "?yet \<noteq> {}"
    unfolding move_set_def [symmetric] by code_simp
  have at: "map_option fst (traverse 24 sorted_list_of_set (5 * 5) (build_graph 5)
      ([] @ [(0, 0)]) (1, 2)) = Some (Tour ?tour)"
    unfolding traverse_outcome move_set_def [symmetric] using search_5_12 by simp
  have l: "int (length ([] :: vertex list)) + 1 \<noteq> 5 * 5" by simp
  from candidates_tried_in_degree_order [OF l refl ne refl, where fuel = 24 and iter = sorted_list_of_set]
  have "\<forall>pre v post r.
      ?nv = pre @ v # post \<and>
      (\<forall>u\<in>set pre. \<exists>r'.
         map_option fst (traverse 24 sorted_list_of_set (5 * 5) (build_graph 5) ([] @ [(0, 0)]) u)
           = Some r' \<and> \<not> truthy r') \<and>
      map_option fst (traverse 24 sorted_list_of_set (5 * 5) (build_graph 5) ([] @ [(0, 0)]) v)
        = Some r \<and> truthy r \<longrightarrow>
      map_option fst (traverse (Suc 24) sorted_list_of_set (5 * 5) (build_graph 5) [] (0, 0))
        = Some r"
    by blast
  from this [rule_format, of "[]" "(1, 2)" "[(2, 1)]" "Tour ?tour"] nv at
  have "map_option fst (traverse (Suc 24) sorted_list_of_set (5 * 5) (build_graph 5) [] (0, 0))
        = Some (Tour ?tour)" by simp
  moreover have "Suc 24 = 25" by simp
  ultimately have r: "map_option fst
      (traverse 25 sorted_list_of_set (5 * 5) (build_graph 5) [] (0, 0)) = Some (Tour ?tour)"
    by metis
  have at': "map_option fst (traverse 24 sorted_list_of_set (5 * 5) (build_graph 5)
      [(0, 0)] (1, 2)) = Some (Tour ?tour)"
    using at by (simp only: append_Nil)
  show ?thesis
  proof (intro conjI)
    show "?nv = [(1, 2), (2, 1)]" by (rule nv0)
    show "map_option fst (traverse 24 sorted_list_of_set (5 * 5) (build_graph 5) [(0, 0)] (1, 2)) =
      map_option fst (traverse 25 sorted_list_of_set (5 * 5) (build_graph 5) [] (0, 0))"
      unfolding r by (rule at')
    show "map_option fst (traverse 25 sorted_list_of_set (5 * 5) (build_graph 5) [] (0, 0)) =
      Some (Tour ?tour)" by (rule r)
  qed
qed

text \<open>On the 8 by 8 board, from \<open>(0, 0)\<close> with lexicographic iteration of the set, the
  two candidates have the same degree and \<open>(1, 2)\<close> is tried first, while the offsets
  list \<open>(2, 1)\<close> before \<open>(1, 2)\<close>.\<close>

theorem candidates_tried_in_degree_order_counterexample:
  "fst (sorted_py (snd (getitem (build_graph 8) (0, 0)))
          (sorted_list_of_set (neighbors (build_graph 8) (0, 0) - set []))) = [(1, 2), (2, 1)] \<and>
   card (neighbors (build_graph 8) (1, 2)) = card (neighbors (build_graph 8) (2, 1)) \<and>
   legal_moves_from 0 0 8 = [(2, 1), (1, 2)]"
  unfolding next_vertices_eq move_set_def [symmetric] by code_simp

end
